theory Spec2Isabelle
  imports Complex_Main "HOL-Library.AList"
begin

section \<open>Tables\<close>

text \<open>
  The program (\<^verbatim>\<open>app.py\<close>) keeps every uploaded file as a pandas DataFrame \<^verbatim>\<open>df\<close> and
  cleans it with three DataFrame expressions. A DataFrame is modelled column by column, as
  pandas stores it: a list of labelled columns in left-to-right order. A column is either
  of a numeric dtype or of another dtype (text), which is what
  \<^verbatim>\<open>df.select_dtypes(include=['number'])\<close> tells apart.

  A numeric cell is \<open>Some v\<close>, or \<open>None\<close> for pandas' missing marker NaN. Numbers are exact
  rationals: the rounding, overflow and infinities of 64-bit machine numbers are not part
  of this model. The row labels (the index) are not modelled: no operation of the program
  reads them and the conversion writes \<^verbatim>\<open>index=False\<close>.
\<close>

type_synonym num = "rat option"

datatype column = Numeric "num list" | Other "string option list"

type_synonym table = "(string \<times> column) list"

datatype cell = NumCell num | OtherCell "string option"

fun col_cells :: "column \<Rightarrow> cell list" where
  "col_cells (Numeric xs) = map NumCell xs"
| "col_cells (Other ys) = map OtherCell ys"

definition col_len :: "column \<Rightarrow> nat" where
  "col_len c = length (col_cells c)"

definition columns :: "(string \<times> 'a) list \<Rightarrow> string list" where
  "columns df = map fst df"

text \<open>\<^verbatim>\<open>len(df)\<close>: the number of rows, read off the first column.\<close>

definition nrows :: "table \<Rightarrow> nat" where
  "nrows df = (case df of [] \<Rightarrow> 0 | (_, c) # _ \<Rightarrow> col_len c)"

definition row_at :: "table \<Rightarrow> nat \<Rightarrow> cell list" where
  "row_at df i = map (\<lambda>(_, c). col_cells c ! i) df"

definition rows :: "table \<Rightarrow> cell list list" where
  "rows df = map (row_at df) [0..<nrows df]"

text \<open>
  The invariant of a table: column labels are unique (both readers rename repeated
  header cells) and all columns have the same length.
\<close>

definition table_ok :: "table \<Rightarrow> bool" where
  "table_ok df = (distinct (columns df) \<and> list_all (\<lambda>(_, c). col_len c = nrows df) df)"

subsection \<open>Remove duplicates\<close>

text \<open>
  \<^verbatim>\<open>df.drop_duplicates(inplace=True)\<close> keeps \<^verbatim>\<open>df[~df.duplicated()]\<close> with the default
  \<^verbatim>\<open>keep='first'\<close>. \<^verbatim>\<open>duplicated\<close> walks the rows from the top with a table of the rows seen
  so far and marks a row when it is already in the table; missing cells compare equal to
  each other there. Indexing with a boolean mask takes the rows at the positions where the
  mask is true (\<^verbatim>\<open>mask.nonzero()\<close>, then \<^verbatim>\<open>take\<close>).
\<close>

fun duplicated_from :: "cell list list \<Rightarrow> cell list list \<Rightarrow> bool list" where
  "duplicated_from seen [] = []"
| "duplicated_from seen (r # rs) =
     (if r \<in> set seen then True # duplicated_from seen rs
      else False # duplicated_from (r # seen) rs)"

definition duplicated :: "table \<Rightarrow> bool list" where
  "duplicated df = duplicated_from [] (rows df)"

definition nonzero :: "bool list \<Rightarrow> nat list" where
  "nonzero bs = filter (\<lambda>i. bs ! i) [0..<length bs]"

fun take_col :: "nat list \<Rightarrow> column \<Rightarrow> column" where
  "take_col idx (Numeric xs) = Numeric (map (\<lambda>i. xs ! i) idx)"
| "take_col idx (Other ys) = Other (map (\<lambda>i. ys ! i) idx)"

definition getitem_mask :: "table \<Rightarrow> bool list \<Rightarrow> table" where
  "getitem_mask df bs = map (\<lambda>(n, c). (n, take_col (nonzero bs) c)) df"

definition drop_duplicates :: "table \<Rightarrow> table" where
  "drop_duplicates df = getitem_mask df (map Not (duplicated df))"

definition ex_dup :: table where
  "ex_dup = [(''name'', Other [Some ''x'', Some ''x'', Some ''y'']),
             (''value'', Numeric [Some 1, Some 1, Some 2])]"

subsection \<open>Arithmetic on numeric columns\<close>

text \<open>
  Elementwise arithmetic propagates NaN. Division is true division: \<open>0 / 0\<close> is NaN and
  raises nothing. (A non-zero numerator over zero is an infinity in numpy, which this model
  does not hold; \<open>normalize_zero_denominator\<close> below shows that the normalisation never
  divides a non-zero number by zero.)
\<close>

fun np_sub :: "num \<Rightarrow> num \<Rightarrow> num" where
  "np_sub (Some a) (Some b) = Some (a - b)"
| "np_sub _ _ = None"

fun np_div :: "num \<Rightarrow> num \<Rightarrow> num" where
  "np_div (Some a) (Some b) = (if b = 0 then None else Some (a / b))"
| "np_div _ _ = None"

text \<open>
  The reductions \<^verbatim>\<open>min()\<close>, \<^verbatim>\<open>max()\<close> and \<^verbatim>\<open>mean()\<close> skip missing cells
  (\<^verbatim>\<open>skipna=True\<close>) and are NaN for a column with no present cell.
\<close>

definition present :: "num list \<Rightarrow> rat list" where
  "present xs = map the (filter (\<lambda>x. x \<noteq> None) xs)"

definition nanmin :: "num list \<Rightarrow> num" where
  "nanmin xs = (case present xs of [] \<Rightarrow> None | v # vs \<Rightarrow> Some (fold min vs v))"

definition nanmax :: "num list \<Rightarrow> num" where
  "nanmax xs = (case present xs of [] \<Rightarrow> None | v # vs \<Rightarrow> Some (fold max vs v))"

definition nanmean :: "num list \<Rightarrow> num" where
  "nanmean xs =
     (case present xs of [] \<Rightarrow> None
      | v # vs \<Rightarrow> Some (sum_list (v # vs) / of_nat (length (v # vs))))"

subsection \<open>Frames and series\<close>

text \<open>
  \<^verbatim>\<open>df[numeric_cols]\<close> is a frame of numeric columns; a reduction of it is a Series with one
  number per column label. Arithmetic between a frame and a Series, and between two Series,
  is aligned on the labels: a label the other operand lacks gives NaN.
\<close>

type_synonym frame = "(string \<times> num list) list"

type_synonym series = "(string \<times> num) list"

definition select_dtypes_number :: "table \<Rightarrow> frame" where
  "select_dtypes_number df =
     concat (map (\<lambda>(n, c). case c of Numeric xs \<Rightarrow> [(n, xs)] | Other _ \<Rightarrow> []) df)"

text \<open>
  \<^verbatim>\<open>df[keys]\<close> selects columns by label, in the order of \<open>keys\<close>. The keys of the program are
  the labels of numeric columns, and the selection is taken among those.
\<close>

definition getitem :: "table \<Rightarrow> string list \<Rightarrow> frame" where
  "getitem df keys = concat (map (\<lambda>k. filter (\<lambda>(n, _). n = k) (select_dtypes_number df)) keys)"

definition series_get :: "series \<Rightarrow> string \<Rightarrow> num" where
  "series_get s n = (case map_of s n of Some v \<Rightarrow> v | None \<Rightarrow> None)"

definition frame_min :: "frame \<Rightarrow> series" where
  "frame_min F = map (\<lambda>(n, xs). (n, nanmin xs)) F"

definition frame_max :: "frame \<Rightarrow> series" where
  "frame_max F = map (\<lambda>(n, xs). (n, nanmax xs)) F"

definition frame_mean :: "frame \<Rightarrow> series" where
  "frame_mean F = map (\<lambda>(n, xs). (n, nanmean xs)) F"

definition series_sub :: "series \<Rightarrow> series \<Rightarrow> series" where
  "series_sub a b = map (\<lambda>(n, x). (n, np_sub x (series_get b n))) a"

definition frame_sub :: "frame \<Rightarrow> series \<Rightarrow> frame" where
  "frame_sub F s = map (\<lambda>(n, xs). (n, map (\<lambda>x. np_sub x (series_get s n)) xs)) F"

definition frame_div :: "frame \<Rightarrow> series \<Rightarrow> frame" where
  "frame_div F s = map (\<lambda>(n, xs). (n, map (\<lambda>x. np_div x (series_get s n)) xs)) F"

text \<open>\<^verbatim>\<open>F.fillna(s)\<close> puts \<open>s[n]\<close> into the missing cells of column \<open>n\<close>.\<close>

definition fillna :: "frame \<Rightarrow> series \<Rightarrow> frame" where
  "fillna F s =
     map (\<lambda>(n, xs). (n, map (\<lambda>x. case x of None \<Rightarrow> series_get s n | Some v \<Rightarrow> Some v) xs)) F"

text \<open>
  \<^verbatim>\<open>df[keys] = value\<close> with a frame on the right walks \<^verbatim>\<open>zip(keys, value.columns)\<close> and
  assigns \<^verbatim>\<open>df[k1] = value[k2]\<close>; assigning one column replaces the column of that label
  in place, or appends it when the label is new.
\<close>

definition setitem :: "table \<Rightarrow> string list \<Rightarrow> frame \<Rightarrow> table" where
  "setitem df keys val =
     fold (\<lambda>(k1, (k2, xs)) d. AList.update k1 (Numeric xs) d) (zip keys val) df"

subsection \<open>Normalize numeric columns\<close>

text \<open>
  \<^verbatim>\<open>numeric_cols = df.select_dtypes(include=['number']).columns\<close>
  \<^verbatim>\<open>df[numeric_cols] = (df[numeric_cols] - df[numeric_cols].min()) / (df[numeric_cols].max() - df[numeric_cols].min())\<close>
\<close>

definition normalize_numeric_columns :: "table \<Rightarrow> table" where
  "normalize_numeric_columns df =
     (let numeric_cols = columns (select_dtypes_number df)
      in setitem df numeric_cols
           (frame_div
              (frame_sub (getitem df numeric_cols) (frame_min (getitem df numeric_cols)))
              (series_sub (frame_max (getitem df numeric_cols))
                 (frame_min (getitem df numeric_cols)))))"

subsection \<open>Fill missing values\<close>

text \<open>
  \<^verbatim>\<open>numeric_cols = df.select_dtypes(include=['number']).columns\<close>
  \<^verbatim>\<open>df[numeric_cols] = df[numeric_cols].fillna(df[numeric_cols].mean())\<close>
\<close>

definition fill_missing :: "table \<Rightarrow> table" where
  "fill_missing df =
     (let numeric_cols = columns (select_dtypes_number df)
      in setitem df numeric_cols
           (fillna (getitem df numeric_cols) (frame_mean (getitem df numeric_cols))))"

text \<open>What the two assignments do to one numeric column, and to a table column by column.\<close>

definition normalize_col :: "num list \<Rightarrow> num list" where
  "normalize_col xs =
     map (\<lambda>x. np_div (np_sub x (nanmin xs)) (np_sub (nanmax xs) (nanmin xs))) xs"

definition fill_col :: "num list \<Rightarrow> num list" where
  "fill_col xs = map (\<lambda>x. case x of None \<Rightarrow> nanmean xs | Some v \<Rightarrow> Some v) xs"

definition map_numeric :: "(num list \<Rightarrow> num list) \<Rightarrow> table \<Rightarrow> table" where
  "map_numeric f df =
     map (\<lambda>(n, c). (n, case c of Numeric xs \<Rightarrow> Numeric (f xs) | Other ys \<Rightarrow> Other ys)) df"


definition ex_norm :: table where
  "ex_norm = [(''name'', Other [Some ''a'', Some ''b'', None, Some ''d'']),
              (''v'', Numeric [Some 1, None, Some 3, Some 5])]"

definition ex_flat :: table where
  "ex_flat = [(''v'', Numeric [Some 2, Some 2, Some 2])]"

definition ex_fill :: table where
  "ex_fill = [(''v'', Numeric [Some 1, Some 3, None, Some 5])]"

section \<open>The application\<close>

subsection \<open>File names\<close>

text \<open>
  \<^verbatim>\<open>os.path.splitext\<close> (the POSIX one) splits at the last dot after the last \<^verbatim>\<open>/\<close>, unless the
  file name part holds nothing but dots before it:
  \<^verbatim>\<open>
  sepIndex = p.rfind(sep)
  dotIndex = p.rfind(extsep)
  if dotIndex > sepIndex:
      filenameIndex = sepIndex + 1
      while filenameIndex < dotIndex:
          if p[filenameIndex:filenameIndex+1] != extsep:
              return p[:dotIndex], p[dotIndex:]
          filenameIndex += 1
  return p, p[:0]
  \<close>
\<close>

primrec rfind_from :: "char \<Rightarrow> string \<Rightarrow> nat \<Rightarrow> int \<Rightarrow> int" where
  "rfind_from c [] i found = found"
| "rfind_from c (x # xs) i found = rfind_from c xs (Suc i) (if x = c then int i else found)"

definition rfind :: "string \<Rightarrow> char \<Rightarrow> int" where
  "rfind p c = rfind_from c p 0 (- 1)"

function name_before_dot :: "string \<Rightarrow> nat \<Rightarrow> nat \<Rightarrow> bool" where
  "name_before_dot p filenameIndex dotIndex =
     (if filenameIndex < dotIndex then
        (if p ! filenameIndex \<noteq> CHR ''.'' then True
         else name_before_dot p (Suc filenameIndex) dotIndex)
      else False)"
  by pat_completeness auto
termination
  by (relation "measure (\<lambda>(p, filenameIndex, dotIndex). dotIndex - filenameIndex)") auto

declare name_before_dot.simps [simp del]

definition splitext :: "string \<Rightarrow> string \<times> string" where
  "splitext p =
     (let sepIndex = rfind p CHR ''/''; dotIndex = rfind p CHR ''.'' in
      if dotIndex > sepIndex \<and> name_before_dot p (nat (sepIndex + 1)) (nat dotIndex)
      then (take (nat dotIndex) p, drop (nat dotIndex) p)
      else (p, []))"

text \<open>\<^verbatim>\<open>str.lower()\<close> on the letters of ASCII.\<close>

definition lower_char :: "char \<Rightarrow> char" where
  "lower_char c =
     (case map_of (zip ''ABCDEFGHIJKLMNOPQRSTUVWXYZ'' ''abcdefghijklmnopqrstuvwxyz'') c of
        Some l \<Rightarrow> l | None \<Rightarrow> c)"

definition lower :: "string \<Rightarrow> string" where
  "lower s = map lower_char s"

text \<open>
  \<^verbatim>\<open>s.replace(old, new)\<close> replaces every occurrence of \<open>old\<close>, scanning from the left
  without overlap; an empty \<open>old\<close> matches before every character and at the end.
\<close>

function replace :: "string \<Rightarrow> string \<Rightarrow> string \<Rightarrow> string" where
  "replace s old new =
     (if old = [] then new @ concat (map (\<lambda>c. c # new) s)
      else if s = [] then []
      else if take (length old) s = old then new @ replace (drop (length old) s) old new
      else hd s # replace (tl s) old new)"
  by pat_completeness auto
termination
  by (relation "measure (\<lambda>(s, old, new). length s)") auto

declare replace.simps [simp del]

subsection \<open>Inputs and outputs of one run\<close>

text \<open>
  One run of the script gets the uploaded files and the state of the widgets, and renders
  elements. The widgets of a file are keyed by its name (their labels and keys are built
  from \<^verbatim>\<open>file.name\<close>). The readers and writers of pandas and the chart builders of
  plotly express are parameters of the model; one that gives \<open>None\<close> has raised, which
  stops the run (the script catches nothing). A figure is the specification the chart
  builder returns. Headings, the file size line, the preview of the table and the style
  sheet are presentation and are left out; the leading emoji of the rendered texts are
  left out too. The archive is modelled by the list of its entries, in the order they are
  written.
\<close>

record upload =
  name :: string
  content :: string

datatype chart = BarChart | Histogram | PieChart | ScatterPlot

datatype conversion = CSV | Excel

record widgets =
  remove_duplicates_clicked :: bool
  normalize_clicked :: bool
  fill_missing_clicked :: bool
  chart_type :: chart
  x_axis :: string
  y_axis :: string
  conversion_type :: conversion

record libraries =
  read_csv :: "string \<Rightarrow> table option"
  read_excel :: "string \<Rightarrow> table option"
  to_csv :: "table \<Rightarrow> string option"
  to_excel :: "table \<Rightarrow> string option"
  px_bar :: "table \<Rightarrow> string \<Rightarrow> string \<Rightarrow> string option"
  px_histogram :: "table \<Rightarrow> string \<Rightarrow> string option"
  px_pie :: "table \<Rightarrow> string \<Rightarrow> string \<Rightarrow> string option"
  px_scatter :: "table \<Rightarrow> string \<Rightarrow> string \<Rightarrow> string option"

datatype payload = Bytes string | Zip "(string \<times> string) list"

datatype element =
    Error string
  | Write string
  | PlotlyChart string
  | DownloadButton string string payload
  | Success string

text \<open>
  Streamlit gives every widget of a run an identity and raises when an identity comes
  twice: a widget without a key is identified by its kind and parameters (a button by its
  label, a chart by its figure, a download button by its label, file name and mime type;
  the label of a download button is built from its file name), a widget with a key must
  have a key no other widget of the run has.
\<close>

datatype element_id = ButtonId string | ChartId string | DownloadId string string

datatype exn =
    ReaderRaised string
  | WriterRaised string
  | PlotRaised string
  | DuplicateElementId element_id
  | DuplicateElementKey string

record session =
  elements :: "element list"
  processed_files :: "(string \<times> string) list"
  element_ids :: "element_id list"
  user_keys :: "string list"

definition and_then :: "exn + 'a \<Rightarrow> ('a \<Rightarrow> exn + 'b) \<Rightarrow> exn + 'b" where
  "and_then m f = (case m of Inl e \<Rightarrow> Inl e | Inr x \<Rightarrow> f x)"

definition register_id :: "element_id \<Rightarrow> session \<Rightarrow> exn + session" where
  "register_id i st =
     (if i \<in> set (element_ids st) then Inl (DuplicateElementId i)
      else Inr (st\<lparr>element_ids := i # element_ids st\<rparr>))"

definition register_key :: "string \<Rightarrow> session \<Rightarrow> exn + session" where
  "register_key k st =
     (if k \<in> set (user_keys st) then Inl (DuplicateElementKey k)
      else Inr (st\<lparr>user_keys := k # user_keys st\<rparr>))"

definition render :: "element \<Rightarrow> session \<Rightarrow> session" where
  "render e st = st\<lparr>elements := elements st @ [e]\<rparr>"

subsection \<open>The body of the loop over the uploaded files\<close>

text \<open>The three buttons of the cleaning section, in the order the script tests them.\<close>

definition cleaning :: "widgets \<Rightarrow> string \<Rightarrow> table \<Rightarrow> session \<Rightarrow> exn + table \<times> session" where
  "cleaning w file_name0 df0 st0 =
     and_then (register_id (ButtonId (''Remove Duplicates - '' @ file_name0)) st0) (\<lambda>st1.
     let (df1, st2) = (if remove_duplicates_clicked w
                       then (drop_duplicates df0, render (Write ''Duplicates removed!'') st1)
                       else (df0, st1)) in
     and_then (register_id (ButtonId (''Normalize Numeric Columns - '' @ file_name0)) st2) (\<lambda>st3.
     let (df2, st4) = (if normalize_clicked w
                       then (normalize_numeric_columns df1,
                             render (Write ''Numeric columns normalized!'') st3)
                       else (df1, st3)) in
     and_then (register_id (ButtonId (''Fill Missing Values - '' @ file_name0)) st4) (\<lambda>st5.
     let (df3, st6) = (if fill_missing_clicked w
                       then (fill_missing df2,
                             render (Write ''Missing values filled with column mean!'') st5)
                       else (df2, st5)) in
     Inr (df3, st6))))"

text \<open>
  \<^verbatim>\<open>numeric_columns = df.select_dtypes(include=['number']).columns\<close>
  \<^verbatim>\<open>if len(numeric_columns) >= 2:\<close> the two axis selectors (keys \<^verbatim>\<open>x_<name>\<close> and
  \<^verbatim>\<open>y_<name>\<close>), the figure of the chosen kind and \<^verbatim>\<open>st.plotly_chart(fig)\<close>; there is no
  \<^verbatim>\<open>else\<close>.
\<close>

definition visualization ::
  "libraries \<Rightarrow> widgets \<Rightarrow> string \<Rightarrow> table \<Rightarrow> session \<Rightarrow> exn + session" where
  "visualization lib w file_name0 df st0 =
     (let numeric_columns = columns (select_dtypes_number df) in
      if length numeric_columns \<ge> 2 then
        and_then (register_key (''x_'' @ file_name0) st0) (\<lambda>st1.
        and_then (register_key (''y_'' @ file_name0) st1) (\<lambda>st2.
        case (case chart_type w of
                BarChart \<Rightarrow> px_bar lib df (x_axis w) (y_axis w)
              | Histogram \<Rightarrow> px_histogram lib df (x_axis w)
              | PieChart \<Rightarrow> px_pie lib df (x_axis w) (y_axis w)
              | ScatterPlot \<Rightarrow> px_scatter lib df (x_axis w) (y_axis w)) of
          None \<Rightarrow> Inl (PlotRaised file_name0)
        | Some fig \<Rightarrow>
            and_then (register_id (ChartId fig) st2) (\<lambda>st3.
            Inr (render (PlotlyChart fig) st3))))
      else Inr st0)"

text \<open>
  The conversion: the radio button (key \<^verbatim>\<open>conv_<name>\<close>), the bytes of the buffer, the
  file name and the mime type, the entry of \<^verbatim>\<open>processed_files\<close>, the download button.
\<close>

definition conversion ::
  "libraries \<Rightarrow> widgets \<Rightarrow> string \<Rightarrow> string \<Rightarrow> table \<Rightarrow> session \<Rightarrow> exn + session" where
  "conversion lib w file_name0 file_extension df st0 =
     and_then (register_key (''conv_'' @ file_name0) st0) (\<lambda>st1.
     let (written, file_name, mime_type) =
           (if conversion_type w = CSV
            then (to_csv lib df, replace file_name0 file_extension ''.csv'', ''text/csv'')
            else (to_excel lib df, replace file_name0 file_extension ''.xlsx'',
                  ''application/vnd.openxmlformats-officedocument.spreadsheetml.sheet''))
     in case written of
          None \<Rightarrow> Inl (WriterRaised file_name0)
        | Some buffer \<Rightarrow>
            and_then
              (register_id (DownloadId file_name mime_type)
                 (st1\<lparr>processed_files := AList.update file_name buffer (processed_files st1)\<rparr>))
              (\<lambda>st2. Inr (render (DownloadButton file_name mime_type (Bytes buffer)) st2)))"

text \<open>
  One file after it is read: cleaning, the chart type selector (key \<^verbatim>\<open><name>\<close>),
  visualization, conversion.
\<close>

definition process ::
  "libraries \<Rightarrow> widgets \<Rightarrow> upload \<Rightarrow> string \<Rightarrow> table \<Rightarrow> session \<Rightarrow> exn + session" where
  "process lib w file file_extension df0 st0 =
     and_then (cleaning w (name file) df0 st0) (\<lambda>(df, st1).
     and_then (register_key (name file) st1) (\<lambda>st2.
     and_then (visualization lib w (name file) df st2) (\<lambda>st3.
     conversion lib w (name file) file_extension df st3)))"

definition file_step ::
  "libraries \<Rightarrow> (string \<Rightarrow> widgets) \<Rightarrow> upload \<Rightarrow> session \<Rightarrow> exn + session" where
  "file_step lib ui file st =
     (let file_extension = lower (snd (splitext (name file))) in
      if file_extension = ''.csv'' then
        (case read_csv lib (content file) of
           None \<Rightarrow> Inl (ReaderRaised (name file))
         | Some df \<Rightarrow> process lib (ui (name file)) file file_extension df st)
      else if file_extension = ''.xlsx'' then
        (case read_excel lib (content file) of
           None \<Rightarrow> Inl (ReaderRaised (name file))
         | Some df \<Rightarrow> process lib (ui (name file)) file file_extension df st)
      else Inr (render (Error (''Unsupported file type: '' @ file_extension)) st))"

fun run_files ::
  "libraries \<Rightarrow> (string \<Rightarrow> widgets) \<Rightarrow> upload list \<Rightarrow> session \<Rightarrow> exn + session" where
  "run_files lib ui [] st = Inr st"
| "run_files lib ui (file # files) st =
     (case file_step lib ui file st of
        Inl e \<Rightarrow> Inl e
      | Inr st' \<Rightarrow> run_files lib ui files st')"

subsection \<open>Bulk download and the whole run\<close>

definition bulk_download :: "session \<Rightarrow> element list" where
  "bulk_download st =
     (if processed_files st \<noteq> []
      then [DownloadButton ''processed_files.zip'' ''application/zip''
              (Zip (processed_files st))]
      else [])"

definition new_session :: session where
  "new_session = \<lparr>elements = [], processed_files = [], element_ids = [], user_keys = []\<rparr>"

definition app :: "libraries \<Rightarrow> (string \<Rightarrow> widgets) \<Rightarrow> upload list \<Rightarrow> exn + element list" where
  "app lib ui uploaded_files =
     (case run_files lib ui uploaded_files new_session of
        Inl e \<Rightarrow> Inl e
      | Inr st \<Rightarrow>
          Inr (elements st @ bulk_download st @ [Success ''All files processed successfully!'']))"





text \<open>
  The dictionary after the assignments \<^verbatim>\<open>processed_files[file_name] = buffer\<close> for a list
  of outputs, in order: one entry per key, at the place of the key's first assignment, with
  the value of its last.
\<close>

definition store ::
  "(string \<times> string) list \<Rightarrow> (string \<times> string) list \<Rightarrow> (string \<times> string) list" where
  "store ds al = fold (\<lambda>(n, b) d. AList.update n b d) ds al"

text \<open>Two sessions that differ at most in the elements rendered so far.\<close>

definition same_widgets :: "session \<Rightarrow> session \<Rightarrow> bool" where
  "same_widgets a b =
     (processed_files a = processed_files b \<and> element_ids a = element_ids b \<and>
      user_keys a = user_keys b)"

text \<open>Stand-ins for the libraries and the widgets, to run the model on examples.\<close>

definition demo_libraries :: libraries where
  "demo_libraries =
     \<lparr>read_csv = (\<lambda>b. if b = ''dup'' then Some ex_dup
                       else if b = ''flat'' then Some ex_flat else None),
      read_excel = (\<lambda>b. if b = ''norm'' then Some ex_norm else None),
      to_csv = (\<lambda>df. Some (concat (map (\<lambda>n. n @ '','') (columns df)))),
      to_excel = (\<lambda>df. Some (''xlsx:'' @ concat (map (\<lambda>n. n @ '','') (columns df)))),
      px_bar = (\<lambda>df x y. Some (''bar '' @ x @ '' '' @ y)),
      px_histogram = (\<lambda>df x. Some (''histogram '' @ x)),
      px_pie = (\<lambda>df x y. Some (''pie '' @ x @ '' '' @ y)),
      px_scatter = (\<lambda>df x y. Some (''scatter '' @ x @ '' '' @ y))\<rparr>"

definition demo_ui :: "string \<Rightarrow> widgets" where
  "demo_ui n =
     \<lparr>remove_duplicates_clicked = False, normalize_clicked = False,
      fill_missing_clicked = False, chart_type = BarChart, x_axis = [], y_axis = [],
      conversion_type = CSV\<rparr>"

definition demo_ui_excel :: "string \<Rightarrow> widgets" where
  "demo_ui_excel n = (demo_ui n)\<lparr>conversion_type := Excel\<rparr>"


section \<open>Properties of the cleaning operations\<close>

subsection \<open>Remove duplicates\<close>

lemma length_duplicated_from: "length (duplicated_from seen rs) = length rs"
  by (induction rs arbitrary: seen) auto

lemma duplicated_from_nth:
  "i < length rs \<Longrightarrow>
   duplicated_from seen rs ! i = (rs ! i \<in> set seen \<or> (\<exists>j<i. rs ! j = rs ! i))"
proof (induction rs arbitrary: seen i)
  case Nil
  then show ?case by simp
next
  case (Cons r rs)
  show ?case
  proof (cases i)
    case 0
    then show ?thesis by simp
  next
    case (Suc k)
    with Cons.prems have k: "k < length rs" by simp
    have ex: "(\<exists>j<Suc k. (r # rs) ! j = rs ! k) = (r = rs ! k \<or> (\<exists>j<k. rs ! j = rs ! k))"
    proof
      assume "\<exists>j<Suc k. (r # rs) ! j = rs ! k"
      then obtain j where j: "j < Suc k" "(r # rs) ! j = rs ! k" by blast
      show "r = rs ! k \<or> (\<exists>j<k. rs ! j = rs ! k)"
      proof (cases j)
        case 0
        with j show ?thesis by simp
      next
        case (Suc m)
        with j have "m < k" "rs ! m = rs ! k" by simp_all
        then show ?thesis by blast
      qed
    next
      assume "r = rs ! k \<or> (\<exists>j<k. rs ! j = rs ! k)"
      then show "\<exists>j<Suc k. (r # rs) ! j = rs ! k"
      proof
        assume "r = rs ! k"
        then have "(r # rs) ! 0 = rs ! k" by simp
        then show ?thesis by blast
      next
        assume "\<exists>j<k. rs ! j = rs ! k"
        then obtain j where "j < k" "rs ! j = rs ! k" by blast
        then have "Suc j < Suc k" "(r # rs) ! Suc j = rs ! k" by simp_all
        then show ?thesis by blast
      qed
    qed
    show ?thesis
      using Cons.IH [OF k, of seen] Cons.IH [OF k, of "r # seen"] Suc ex
      by auto
  qed
qed

lemma col_cells_take_col:
  "\<forall>i\<in>set idx. i < col_len c \<Longrightarrow> col_cells (take_col idx c) = map (\<lambda>i. col_cells c ! i) idx"
  by (cases c) (simp_all add: col_len_def)

lemma col_len_take_col: "col_len (take_col idx c) = length idx"
  by (cases c) (simp_all add: col_len_def)

lemma set_nonzero: "i \<in> set (nonzero bs) \<Longrightarrow> i < length bs"
  by (simp add: nonzero_def)

lemma nrows_getitem_mask: "df \<noteq> [] \<Longrightarrow> nrows (getitem_mask df bs) = length (nonzero bs)"
  by (cases df) (auto simp: nrows_def getitem_mask_def col_len_take_col)

lemma columns_getitem_mask: "columns (getitem_mask df bs) = columns df"
  by (induction df) (auto simp: columns_def getitem_mask_def)

lemma rows_nth: "i < nrows df \<Longrightarrow> rows df ! i = row_at df i"
  by (simp add: rows_def)

lemma row_at_getitem_mask:
  assumes "list_all (\<lambda>(_, c). col_len c = nrows df) df" "length bs = nrows df"
    and "k < length (nonzero bs)"
  shows "row_at (getitem_mask df bs) k = row_at df (nonzero bs ! k)"
proof -
  have "\<And>n c. (n, c) \<in> set df \<Longrightarrow> col_cells (take_col (nonzero bs) c) ! k = col_cells c ! (nonzero bs ! k)"
  proof -
    fix n c assume "(n, c) \<in> set df"
    with assms(1) have "col_len c = nrows df" by (auto simp: list_all_iff)
    with assms(2) have "\<forall>i\<in>set (nonzero bs). i < col_len c" by (auto dest: set_nonzero)
    then show "col_cells (take_col (nonzero bs) c) ! k = col_cells c ! (nonzero bs ! k)"
      using assms(3) by (simp add: col_cells_take_col)
  qed
  then show ?thesis
    by (auto simp: row_at_def getitem_mask_def)
qed

lemma rows_getitem_mask:
  assumes "list_all (\<lambda>(_, c). col_len c = nrows df) df" "length bs = nrows df"
  shows "rows (getitem_mask df bs) = map (\<lambda>i. rows df ! i) (nonzero bs)"
proof (cases "df = []")
  case True
  with assms(2) show ?thesis by (simp add: rows_def nrows_def getitem_mask_def nonzero_def)
next
  case False
  have "rows (getitem_mask df bs) = map (row_at (getitem_mask df bs)) [0..<length (nonzero bs)]"
    by (simp add: rows_def nrows_getitem_mask [OF False])
  also have "\<dots> = map (\<lambda>k. row_at df (nonzero bs ! k)) [0..<length (nonzero bs)]"
    using assms by (simp add: row_at_getitem_mask)
  also have "\<dots> = map (row_at df) (nonzero bs)"
    by (rule nth_equalityI) simp_all
  also have "\<dots> = map (\<lambda>i. rows df ! i) (nonzero bs)"
    using assms(2) by (auto simp: rows_nth dest: set_nonzero)
  finally show ?thesis .
qed

lemma length_duplicated: "length (duplicated df) = nrows df"
  by (simp add: duplicated_def length_duplicated_from rows_def)

lemma nonzero_not_duplicated:
  "nonzero (map Not (duplicated df)) =
   filter (\<lambda>i. \<forall>j<i. rows df ! j \<noteq> rows df ! i) [0..<nrows df]"
proof -
  have "length (rows df) = nrows df" by (simp add: rows_def)
  then show ?thesis
    unfolding nonzero_def
    by (auto simp: length_duplicated duplicated_def duplicated_from_nth length_duplicated_from
        intro!: filter_cong)
qed

text \<open>
  Claim C4. On every table, removing duplicates keeps the column labels and removes exactly
  the rows that are equal, cell for cell across all columns, to a row above them: the rows
  that remain are the rows with no equal row above, in their original order, so the first
  occurrence of every row is the one that stays.
\<close>

theorem drop_duplicates_keeps_first:
  assumes "table_ok df"
  shows "columns (drop_duplicates df) = columns df \<and>
         rows (drop_duplicates df) =
           map (\<lambda>i. rows df ! i)
             (filter (\<lambda>i. \<forall>j<i. rows df ! j \<noteq> rows df ! i) [0..<nrows df])"
  using assms
  by (simp add: drop_duplicates_def columns_getitem_mask rows_getitem_mask length_duplicated
      nonzero_not_duplicated table_ok_def)

lemma rows_ex_dup:
  "rows ex_dup =
     [[OtherCell (Some ''x''), NumCell (Some 1)],
      [OtherCell (Some ''x''), NumCell (Some 1)],
      [OtherCell (Some ''y''), NumCell (Some 2)]]"
  by code_simp

text \<open>
  The scenario of the specification: rows \<open>("x",1), ("x",1), ("y",2)\<close> under the header
  \<open>name,value\<close> become \<open>("x",1), ("y",2)\<close>.
\<close>

theorem drop_duplicates_keeps_first_witness:
  "table_ok ex_dup \<and>
   columns (drop_duplicates ex_dup) = [''name'', ''value''] \<and>
   rows (drop_duplicates ex_dup) =
     [[OtherCell (Some ''x''), NumCell (Some 1)], [OtherCell (Some ''y''), NumCell (Some 2)]]"
proof -
  have ok: "table_ok ex_dup" by code_simp
  have cols: "columns ex_dup = [''name'', ''value'']" by code_simp
  have n: "nrows ex_dup = 3" by code_simp
  have idx: "[0..<3] = [0, 1, 2]" by code_simp
  have sel: "filter (\<lambda>i. \<forall>j<i. rows ex_dup ! j \<noteq> rows ex_dup ! i) [0..<nrows ex_dup] = [0, 2]"
    unfolding rows_ex_dup n idx
    by (simp add: numeral_2_eq_2 All_less_Suc)
  show ?thesis
    using drop_duplicates_keeps_first [OF ok, unfolded sel] ok
    by (simp add: cols rows_ex_dup)
qed

subsection \<open>The two assignments, column by column\<close>

lemma select_dtypes_number_Cons:
  "select_dtypes_number ((n, c) # df) =
     (case c of Numeric xs \<Rightarrow> (n, xs) # select_dtypes_number df | Other _ \<Rightarrow> select_dtypes_number df)"
  by (simp add: select_dtypes_number_def split: column.split)

lemma set_select_dtypes_number:
  "((n, xs) \<in> set (select_dtypes_number df)) = ((n, Numeric xs) \<in> set df)"
  by (induction df) (auto simp: select_dtypes_number_Cons select_dtypes_number_def split: column.splits)

lemma fst_select_dtypes_number:
  "k \<in> fst ` set (select_dtypes_number df) \<Longrightarrow> k \<in> fst ` set df"
  by (force simp: set_select_dtypes_number)

lemma distinct_select_dtypes_number:
  "distinct (map fst df) \<Longrightarrow> distinct (map fst (select_dtypes_number df))"
proof (induction df)
  case Nil
  then show ?case by (simp add: select_dtypes_number_def)
next
  case (Cons p df)
  obtain n c where p: "p = (n, c)" by (cases p)
  from Cons.prems p have "n \<notin> fst ` set df" by simp
  then have "n \<notin> fst ` set (select_dtypes_number df)"
    using fst_select_dtypes_number by blast
  with Cons p show ?case
    by (auto simp: select_dtypes_number_Cons split: column.splits)
qed

lemma filter_label_unique:
  "distinct (map fst F) \<Longrightarrow> (k, v) \<in> set F \<Longrightarrow> filter (\<lambda>(n, _). n = k) F = [(k, v)]"
proof (induction F)
  case Nil
  then show ?case by simp
next
  case (Cons p F)
  show ?case
  proof (cases "p = (k, v)")
    case True
    with Cons.prems have "k \<notin> fst ` set F" by auto
    then have "filter (\<lambda>(n, _). n = k) F = []"
      by (force simp: filter_empty_conv)
    with True show ?thesis by simp
  next
    case False
    with Cons.prems have in_F: "(k, v) \<in> set F" by simp
    then have "k \<in> fst ` set F" by force
    with Cons.prems have "fst p \<noteq> k" by auto
    with Cons in_F show ?thesis by (auto split: prod.splits)
  qed
qed

lemma select_by_own_labels:
  "distinct (map fst F) \<Longrightarrow> set G \<subseteq> set F \<Longrightarrow>
   concat (map (\<lambda>k. filter (\<lambda>(n, _). n = k) F) (map fst G)) = G"
  by (induction G) (auto simp: filter_label_unique)

lemma getitem_numeric_cols:
  "distinct (columns df) \<Longrightarrow>
   getitem df (columns (select_dtypes_number df)) = select_dtypes_number df"
  unfolding getitem_def columns_def
  by (rule select_by_own_labels) (simp_all add: distinct_select_dtypes_number)

lemma series_get_map:
  "distinct (map fst F) \<Longrightarrow> (n, xs) \<in> set F \<Longrightarrow>
   series_get (map (\<lambda>(n, xs). (n, f xs)) F) n = f xs"
proof -
  assume d: "distinct (map fst F)" and m: "(n, xs) \<in> set F"
  have eq: "map fst (map (\<lambda>(n, xs). (n, f xs)) F) = map fst F"
    by (simp add: comp_def case_prod_unfold)
  have "distinct (map fst (map (\<lambda>(n, xs). (n, f xs)) F))"
    unfolding eq by (rule d)
  moreover from m have "(n, f xs) \<in> set (map (\<lambda>(n, xs). (n, f xs)) F)" by force
  ultimately have "map_of (map (\<lambda>(n, xs). (n, f xs)) F) n = Some (f xs)"
    by (rule map_of_is_SomeI)
  then show ?thesis by (simp add: series_get_def)
qed

lemma series_get_range:
  assumes "distinct (map fst F)" "(n, xs) \<in> set F"
  shows "series_get (series_sub (frame_max F) (frame_min F)) n = np_sub (nanmax xs) (nanmin xs)"
proof -
  have "series_sub (frame_max F) (frame_min F)
        = map (\<lambda>(n, xs). (n, np_sub (nanmax xs) (series_get (frame_min F) n))) F"
    by (simp add: series_sub_def frame_max_def case_prod_unfold comp_def)
  also have "\<dots> = map (\<lambda>(n, xs). (n, np_sub (nanmax xs) (nanmin xs))) F"
    using assms(1) by (auto simp: frame_min_def series_get_map)
  finally show ?thesis using assms by (simp add: series_get_map)
qed

lemma normalize_frame:
  assumes "distinct (map fst F)"
  shows "frame_div (frame_sub F (frame_min F)) (series_sub (frame_max F) (frame_min F))
         = map (\<lambda>(n, xs). (n, normalize_col xs)) F"
proof -
  have "frame_sub F (frame_min F) = map (\<lambda>(n, xs). (n, map (\<lambda>x. np_sub x (nanmin xs)) xs)) F"
    using assms by (auto simp: frame_sub_def frame_min_def series_get_map)
  then show ?thesis
    using assms
    by (auto simp: frame_div_def series_get_range normalize_col_def comp_def)
qed

lemma fillna_frame:
  assumes "distinct (map fst F)"
  shows "fillna F (frame_mean F) = map (\<lambda>(n, xs). (n, fill_col xs)) F"
  using assms by (auto simp: fillna_def frame_mean_def series_get_map fill_col_def)

lemma fold_update_skip:
  "m \<notin> fst ` set G \<Longrightarrow>
   fold (\<lambda>(k, xs) d. AList.update k (Numeric (g xs)) d) G ((m, c) # d)
   = (m, c) # fold (\<lambda>(k, xs) d. AList.update k (Numeric (g xs)) d) G d"
  by (induction G arbitrary: d) (auto)

lemma fold_update_numeric:
  "distinct (map fst df) \<Longrightarrow>
   fold (\<lambda>(k, xs) d. AList.update k (Numeric (g xs)) d) (select_dtypes_number df) df
   = map_numeric g df"
proof (induction df)
  case Nil
  then show ?case by (simp add: select_dtypes_number_def map_numeric_def)
next
  case (Cons p df)
  obtain n c where p: "p = (n, c)" by (cases p)
  from Cons.prems p have "n \<notin> fst ` set df" by simp
  then have n: "n \<notin> fst ` set (select_dtypes_number df)"
    using fst_select_dtypes_number by blast
  from Cons have IH: "fold (\<lambda>(k, xs) d. AList.update k (Numeric (g xs)) d) (select_dtypes_number df) df
   = map_numeric g df" by simp
  have tl: "map_numeric g ((n, c) # df) = (n, case c of Numeric xs \<Rightarrow> Numeric (g xs) | Other ys \<Rightarrow> Other ys) # map_numeric g df"
    by (simp add: map_numeric_def)
  show ?case
    unfolding p tl
    by (cases c) (simp_all add: select_dtypes_number_Cons fold_update_skip [OF n] IH)
qed

lemma setitem_numeric:
  assumes "distinct (columns df)"
  shows "setitem df (columns (select_dtypes_number df))
           (map (\<lambda>(n, xs). (n, g xs)) (select_dtypes_number df)) = map_numeric g df"
proof -
  have "zip (map fst F) (map (\<lambda>(n, xs). (n, g xs)) F) = map (\<lambda>(n, xs). (n, (n, g xs))) F" for F :: frame
    by (induction F) auto
  then have "setitem df (columns (select_dtypes_number df))
           (map (\<lambda>(n, xs). (n, g xs)) (select_dtypes_number df))
        = fold (\<lambda>(k, xs) d. AList.update k (Numeric (g xs)) d) (select_dtypes_number df) df"
    by (simp add: setitem_def columns_def fold_map comp_def case_prod_unfold)
  with assms show ?thesis by (simp add: fold_update_numeric columns_def)
qed

lemma normalize_columnwise:
  assumes "distinct (columns df)"
  shows "normalize_numeric_columns df = map_numeric normalize_col df"
proof -
  let ?F = "select_dtypes_number df"
  have d: "distinct (map fst ?F)"
    using assms by (simp add: columns_def distinct_select_dtypes_number)
  have "normalize_numeric_columns df =
        setitem df (columns ?F)
          (frame_div (frame_sub ?F (frame_min ?F)) (series_sub (frame_max ?F) (frame_min ?F)))"
    using assms by (simp add: normalize_numeric_columns_def Let_def getitem_numeric_cols)
  also have "\<dots> = setitem df (columns ?F) (map (\<lambda>(n, xs). (n, normalize_col xs)) ?F)"
    by (simp only: normalize_frame [OF d])
  also have "\<dots> = map_numeric normalize_col df"
    by (rule setitem_numeric [OF assms])
  finally show ?thesis .
qed

lemma fill_missing_columnwise:
  assumes "distinct (columns df)"
  shows "fill_missing df = map_numeric fill_col df"
proof -
  let ?F = "select_dtypes_number df"
  have d: "distinct (map fst ?F)"
    using assms by (simp add: columns_def distinct_select_dtypes_number)
  have "fill_missing df = setitem df (columns ?F) (fillna ?F (frame_mean ?F))"
    using assms by (simp add: fill_missing_def Let_def getitem_numeric_cols)
  also have "\<dots> = setitem df (columns ?F) (map (\<lambda>(n, xs). (n, fill_col xs)) ?F)"
    by (simp only: fillna_frame [OF d])
  also have "\<dots> = map_numeric fill_col df"
    by (rule setitem_numeric [OF assms])
  finally show ?thesis .
qed


subsection \<open>Normalize numeric columns\<close>

lemma set_present: "set (present xs) = {v. Some v \<in> set xs}"
  by (force simp: present_def image_iff)

lemma nanmin_Min: "present xs \<noteq> [] \<Longrightarrow> nanmin xs = Some (Min (set (present xs)))"
  by (cases "present xs") (simp_all add: nanmin_def Min.set_eq_fold [symmetric] del: set_simps)

lemma nanmax_Max: "present xs \<noteq> [] \<Longrightarrow> nanmax xs = Some (Max (set (present xs)))"
  by (cases "present xs") (simp_all add: nanmax_def Max.set_eq_fold [symmetric] del: set_simps)

lemma nanmean_mean:
  "present xs \<noteq> [] \<Longrightarrow> nanmean xs = Some (sum_list (present xs) / of_nat (length (present xs)))"
  by (cases "present xs") (simp_all add: nanmean_def)

lemma nanmean_none: "present xs = [] \<Longrightarrow> nanmean xs = None"
  by (simp add: nanmean_def)

lemma columns_map_numeric: "columns (map_numeric g df) = columns df"
  by (simp add: columns_def map_numeric_def comp_def case_prod_unfold)

lemma map_of_map_numeric:
  assumes "distinct (columns df)" "(n, c) \<in> set df"
  shows "map_of (map_numeric g df) n
         = Some (case c of Numeric xs \<Rightarrow> Numeric (g xs) | Other ys \<Rightarrow> Other ys)"
proof -
  have "distinct (map fst (map_numeric g df))"
    using assms(1) columns_map_numeric [of g df] by (simp add: columns_def)
  moreover have "(n, case c of Numeric xs \<Rightarrow> Numeric (g xs) | Other ys \<Rightarrow> Other ys)
                 \<in> set (map_numeric g df)"
    using assms(2) by (force simp: map_numeric_def)
  ultimately show ?thesis by (rule map_of_is_SomeI)
qed

lemma normalize_col_present:
  assumes "present xs \<noteq> []" "Min (set (present xs)) \<noteq> Max (set (present xs))"
    and "Some v \<in> set xs"
  shows "np_div (np_sub (Some v) (nanmin xs)) (np_sub (nanmax xs) (nanmin xs))
         = Some ((v - Min (set (present xs))) / (Max (set (present xs)) - Min (set (present xs))))"
    and "0 \<le> (v - Min (set (present xs))) / (Max (set (present xs)) - Min (set (present xs)))"
    and "(v - Min (set (present xs))) / (Max (set (present xs)) - Min (set (present xs))) \<le> 1"
proof -
  let ?mn = "Min (set (present xs))" and ?mx = "Max (set (present xs))"
  from assms(3) have v: "v \<in> set (present xs)" by (simp add: set_present)
  then have lo: "?mn \<le> v" and hi: "v \<le> ?mx" by simp_all
  with assms(2) have pos: "0 < ?mx - ?mn" by simp
  show "np_div (np_sub (Some v) (nanmin xs)) (np_sub (nanmax xs) (nanmin xs))
         = Some ((v - ?mn) / (?mx - ?mn))"
    using assms(1,2) by (simp add: nanmin_Min nanmax_Max)
  show "0 \<le> (v - ?mn) / (?mx - ?mn)" using lo pos by simp
  show "(v - ?mn) / (?mx - ?mn) \<le> 1" using hi pos by (simp add: divide_le_eq)
qed


lemma normalize_col_nth:
  assumes "present xs \<noteq> []" "Min (set (present xs)) \<noteq> Max (set (present xs))"
    and "i < length xs"
  shows "normalize_col xs ! i =
         (case xs ! i of None \<Rightarrow> None
          | Some v \<Rightarrow> Some ((v - Min (set (present xs))) / (Max (set (present xs)) - Min (set (present xs)))))"
proof (cases "xs ! i")
  case None
  with assms(3) show ?thesis by (simp add: normalize_col_def)
next
  case (Some v)
  with assms(3) have "Some v \<in> set xs" by (metis nth_mem)
  from normalize_col_present(1) [OF assms(1,2) this] Some assms(3)
  show ?thesis by (simp add: normalize_col_def)
qed

text \<open>
  Claim C2. Take a table and one of its numeric columns that has a present value and whose
  smallest present value \<open>mn\<close> differs from its largest \<open>mx\<close>. After the normalisation the
  column has the same length, every present cell \<open>v\<close> holds \<open>(v - mn) / (mx - mn)\<close> and a
  missing cell stays missing; every value of the column lies between 0 and 1; the cells
  that held the minimum hold 0 and those that held the maximum hold 1, and both occur.
\<close>

theorem normalize_distinct_range:
  assumes "table_ok df" and "(n, Numeric xs) \<in> set df"
    and "present xs \<noteq> []"
    and "mn = Min (set (present xs))" and "mx = Max (set (present xs))" and "mn \<noteq> mx"
  shows "\<exists>ys. map_of (normalize_numeric_columns df) n = Some (Numeric ys) \<and>
           length ys = length xs \<and>
           (\<forall>i<length xs. ys ! i =
              (case xs ! i of None \<Rightarrow> None | Some v \<Rightarrow> Some ((v - mn) / (mx - mn)))) \<and>
           (\<forall>w. Some w \<in> set ys \<longrightarrow> 0 \<le> w \<and> w \<le> 1) \<and>
           (\<forall>i<length xs. xs ! i = Some mn \<longrightarrow> ys ! i = Some 0) \<and>
           (\<forall>i<length xs. xs ! i = Some mx \<longrightarrow> ys ! i = Some 1) \<and>
           Some 0 \<in> set ys \<and> Some 1 \<in> set ys"
proof -
  let ?ys = "normalize_col xs"
  from assms(1) have d: "distinct (columns df)" by (simp add: table_ok_def)
  have ne: "Min (set (present xs)) \<noteq> Max (set (present xs))" using assms(4-6) by simp
  have nth: "?ys ! i = (case xs ! i of None \<Rightarrow> None | Some v \<Rightarrow> Some ((v - mn) / (mx - mn)))"
    if "i < length xs" for i
    using normalize_col_nth [OF assms(3) ne that] unfolding assms(4,5) .
  have len: "length ?ys = length xs" by (simp add: normalize_col_def)
  have look: "map_of (normalize_numeric_columns df) n = Some (Numeric ?ys)"
    using map_of_map_numeric [OF d assms(2), of normalize_col]
    by (simp add: normalize_columnwise [OF d])
  have range: "0 \<le> w \<and> w \<le> 1" if "Some w \<in> set ?ys" for w
  proof -
    from that len obtain i where i: "i < length xs" "?ys ! i = Some w"
      by (metis in_set_conv_nth)
    with nth [OF i(1)] obtain v where v: "xs ! i = Some v" "w = (v - mn) / (mx - mn)"
      by (cases "xs ! i") simp_all
    from i(1) v(1) have "Some v \<in> set xs" by (metis nth_mem)
    from normalize_col_present(2,3) [OF assms(3) ne this] v(2) assms(4,5)
    show ?thesis by simp
  qed
  have at_min: "?ys ! i = Some 0" if "i < length xs" "xs ! i = Some mn" for i
    using nth [OF that(1)] that(2) by simp
  have at_max: "?ys ! i = Some 1" if "i < length xs" "xs ! i = Some mx" for i
    using nth [OF that(1)] that(2) assms(6) by simp
  have "mn \<in> set (present xs)" "mx \<in> set (present xs)"
    using assms(3-5) by simp_all
  then have "Some mn \<in> set xs" "Some mx \<in> set xs" by (simp_all add: set_present)
  then obtain i j where "i < length xs" "xs ! i = Some mn" "j < length xs" "xs ! j = Some mx"
    by (metis in_set_conv_nth)
  with at_min at_max len have "Some 0 \<in> set ?ys" "Some 1 \<in> set ?ys"
    by (metis nth_mem)+
  with look len nth range at_min at_max show ?thesis by blast
qed


theorem normalize_distinct_range_witness:
  "normalize_numeric_columns ex_norm =
     [(''name'', Other [Some ''a'', Some ''b'', None, Some ''d'']),
      (''v'', Numeric [Some 0, None, Some (1 / 2), Some 1])] \<and>
   (\<exists>ys. map_of (normalize_numeric_columns ex_norm) ''v'' = Some (Numeric ys) \<and>
      length ys = 4 \<and>
      (\<forall>w. Some w \<in> set ys \<longrightarrow> 0 \<le> w \<and> w \<le> 1) \<and>
      Some 0 \<in> set ys \<and> Some 1 \<in> set ys)"
proof -
  let ?xs = "[Some 1, None, Some 3, Some (5::rat)]"
  have ok: "table_ok ex_norm" by code_simp
  have mem: "(''v'', Numeric ?xs) \<in> set ex_norm" by (simp add: ex_norm_def)
  have pr: "present ?xs = [1, 3, 5]" by (simp add: present_def)
  have ne: "present ?xs \<noteq> []" by (simp add: pr)
  have mn: "(1::rat) = Min (set (present ?xs))" by (simp add: pr)
  have mx: "(5::rat) = Max (set (present ?xs))" by (simp add: pr)
  have "normalize_numeric_columns ex_norm =
     [(''name'', Other [Some ''a'', Some ''b'', None, Some ''d'']),
      (''v'', Numeric [Some 0, None, Some (1 / 2), Some 1])]"
    by code_simp
  moreover from normalize_distinct_range [OF ok mem ne mn mx]
  have "\<exists>ys. map_of (normalize_numeric_columns ex_norm) ''v'' = Some (Numeric ys) \<and>
      length ys = 4 \<and>
      (\<forall>w. Some w \<in> set ys \<longrightarrow> 0 \<le> w \<and> w \<le> 1) \<and>
      Some 0 \<in> set ys \<and> Some 1 \<in> set ys"
    by auto
  ultimately show ?thesis by blast
qed

text \<open>
  A column whose largest and smallest present values are equal (and a column with no
  present value) has the denominator \<open>0\<close> or NaN: every cell becomes NaN.
\<close>

lemma np_div_zero_range: "np_div x (np_sub a a) = None"
  by (cases x; cases a) simp_all

lemma normalize_col_zero_range:
  "nanmax xs = nanmin xs \<Longrightarrow> normalize_col xs = map (\<lambda>_. None) xs"
  by (simp add: normalize_col_def np_div_zero_range)

lemma normalize_zero_denominator:
  assumes "np_sub (nanmax xs) (nanmin xs) = Some 0" and "x \<in> set xs"
  shows "np_sub x (nanmin xs) = None \<or> np_sub x (nanmin xs) = Some 0"
proof (cases x)
  case None
  then show ?thesis by simp
next
  case (Some v)
  with assms(2) have v: "v \<in> set (present xs)" by (simp add: set_present)
  then have ne: "present xs \<noteq> []" by auto
  from assms(1) have eq: "Max (set (present xs)) = Min (set (present xs))"
    by (simp add: nanmin_Min [OF ne] nanmax_Max [OF ne])
  from v have "Min (set (present xs)) \<le> v" "v \<le> Max (set (present xs))" by simp_all
  with eq have "v = Min (set (present xs))" by simp
  with Some show ?thesis by (simp add: nanmin_Min [OF ne])
qed

text \<open>
  Claim C1. The scenario of the specification, a table with the numeric column
  \<open>v = [2, 2, 2]\<close>: the normalisation computes \<open>(2 - 2) / (2 - 2)\<close> in every cell and leaves
  the column \<open>[NaN, NaN, NaN]\<close>, without raising and without a message other than the one of
  success.
\<close>

theorem normalize_zero_range_nan:
  "normalize_numeric_columns ex_flat = [(''v'', Numeric [None, None, None])]"
  by code_simp

subsection \<open>Fill missing values\<close>

lemma fill_col_nth:
  "i < length xs \<Longrightarrow>
   fill_col xs ! i =
     (case xs ! i of Some v \<Rightarrow> Some v
      | None \<Rightarrow> if present xs = [] then None
                else Some (sum_list (present xs) / of_nat (length (present xs))))"
  by (cases "xs ! i") (simp_all add: fill_col_def nanmean_mean nanmean_none)

text \<open>
  Claim C3. On every table, for every numeric column, filling keeps the length and the
  present cells of the column, and puts into each missing cell the mean of the present
  values of the column as they are when the operation runs: their sum over their number.
  (A column with no present value has no mean and stays as it is.)
\<close>

theorem fill_missing_mean:
  assumes "table_ok df" and "(n, Numeric xs) \<in> set df"
  shows "\<exists>ys. map_of (fill_missing df) n = Some (Numeric ys) \<and> length ys = length xs \<and>
           (\<forall>i<length xs. ys ! i =
              (case xs ! i of Some v \<Rightarrow> Some v
               | None \<Rightarrow> if present xs = [] then None
                          else Some (sum_list (present xs) / of_nat (length (present xs)))))"
proof -
  from assms(1) have d: "distinct (columns df)" by (simp add: table_ok_def)
  have "map_of (fill_missing df) n = Some (Numeric (fill_col xs))"
    using map_of_map_numeric [OF d assms(2), of fill_col]
    by (simp add: fill_missing_columnwise [OF d])
  moreover have "length (fill_col xs) = length xs" by (simp add: fill_col_def)
  ultimately show ?thesis using fill_col_nth by blast
qed

text \<open>
  The scenario of the specification: \<open>v = [1, 3, NaN, 5]\<close> becomes \<open>[1, 3, 3, 5]\<close>.
\<close>

theorem fill_missing_mean_witness:
  "table_ok ex_fill \<and>
   fill_missing ex_fill = [(''v'', Numeric [Some 1, Some 3, Some 3, Some 5])] \<and>
   (\<exists>ys. map_of (fill_missing ex_fill) ''v'' = Some (Numeric ys) \<and> length ys = 4 \<and>
      ys ! 0 = Some 1 \<and> ys ! 1 = Some 3 \<and> ys ! 2 = Some 3 \<and> ys ! 3 = Some 5)"
proof -
  let ?xs = "[Some 1, Some 3, None, Some (5::rat)]"
  have ok: "table_ok ex_fill" by code_simp
  have mem: "(''v'', Numeric ?xs) \<in> set ex_fill" by (simp add: ex_fill_def)
  have pr: "present ?xs = [1, 3, 5]" by (simp add: present_def)
  from fill_missing_mean [OF ok mem] obtain ys where
    ys: "map_of (fill_missing ex_fill) ''v'' = Some (Numeric ys)" "length ys = 4"
    and nth: "\<And>i. i < 4 \<Longrightarrow> ys ! i =
              (case ?xs ! i of Some v \<Rightarrow> Some v
               | None \<Rightarrow> if present ?xs = [] then None
                          else Some (sum_list (present ?xs) / of_nat (length (present ?xs))))"
    by auto
  have "ys ! 0 = Some 1" "ys ! 1 = Some 3" "ys ! 2 = Some 3" "ys ! 3 = Some 5"
    using nth [of 0] nth [of 1] nth [of 2] nth [of 3] by (simp_all add: pr)
  moreover have "fill_missing ex_fill = [(''v'', Numeric [Some 1, Some 3, Some 3, Some 5])]"
    by code_simp
  ultimately show ?thesis using ok ys by blast
qed


subsection \<open>The shape of a table\<close>

lemma nrows_map_numeric:
  "(\<And>xs. length (g xs) = length xs) \<Longrightarrow> nrows (map_numeric g df) = nrows df"
  by (cases df) (auto simp: nrows_def map_numeric_def col_len_def split: column.splits)

lemma table_ok_map_numeric:
  assumes "\<And>xs. length (g xs) = length xs" and "table_ok df"
  shows "table_ok (map_numeric g df)"
proof -
  have "col_len (case c of Numeric xs \<Rightarrow> Numeric (g xs) | Other ys \<Rightarrow> Other ys) = col_len c" for c
    using assms(1) by (cases c) (simp_all add: col_len_def)
  then have "list_all (\<lambda>(_, c). col_len c = nrows df) (map_numeric g df)"
    using assms(2) by (auto simp: table_ok_def list_all_iff map_numeric_def)
  then show ?thesis
    using assms by (simp add: table_ok_def columns_map_numeric nrows_map_numeric)
qed

lemma table_ok_getitem_mask:
  assumes "table_ok df"
  shows "table_ok (getitem_mask df bs)"
proof (cases "df = []")
  case True
  then show ?thesis by (simp add: getitem_mask_def table_ok_def columns_def nrows_def)
next
  case False
  have "list_all (\<lambda>(_, c). col_len c = length (nonzero bs)) (getitem_mask df bs)"
    by (auto simp: list_all_iff getitem_mask_def col_len_take_col)
  with assms False show ?thesis
    by (simp add: table_ok_def columns_getitem_mask nrows_getitem_mask)
qed

text \<open>
  Claim C10. Each of the three cleaning operations keeps the column labels and their
  left-to-right order and keeps the invariant of a table (unique labels, all columns of
  one length); normalising and filling keep the number of rows.
\<close>

theorem cleaning_preserves_shape:
  assumes "table_ok df"
  shows "columns (drop_duplicates df) = columns df \<and> table_ok (drop_duplicates df) \<and>
         columns (normalize_numeric_columns df) = columns df \<and>
         table_ok (normalize_numeric_columns df) \<and>
         nrows (normalize_numeric_columns df) = nrows df \<and>
         columns (fill_missing df) = columns df \<and>
         table_ok (fill_missing df) \<and>
         nrows (fill_missing df) = nrows df"
proof -
  from assms have d: "distinct (columns df)" by (simp add: table_ok_def)
  have n: "length (normalize_col xs) = length xs" for xs by (simp add: normalize_col_def)
  have f: "length (fill_col xs) = length xs" for xs by (simp add: fill_col_def)
  show ?thesis
    using assms
    by (simp add: drop_duplicates_def columns_getitem_mask table_ok_getitem_mask
        normalize_columnwise [OF d] fill_missing_columnwise [OF d] columns_map_numeric
        table_ok_map_numeric [OF n] table_ok_map_numeric [OF f]
        nrows_map_numeric [OF n] nrows_map_numeric [OF f])
qed

theorem cleaning_preserves_shape_witness:
  "table_ok ex_norm \<and>
   columns (drop_duplicates ex_norm) = [''name'', ''v''] \<and> table_ok (drop_duplicates ex_norm) \<and>
   columns (normalize_numeric_columns ex_norm) = [''name'', ''v''] \<and>
   table_ok (normalize_numeric_columns ex_norm) \<and>
   nrows (normalize_numeric_columns ex_norm) = 4 \<and>
   columns (fill_missing ex_norm) = [''name'', ''v''] \<and>
   table_ok (fill_missing ex_norm) \<and>
   nrows (fill_missing ex_norm) = 4"
proof -
  have ok: "table_ok ex_norm" by code_simp
  have c: "columns ex_norm = [''name'', ''v'']" by code_simp
  have n: "nrows ex_norm = 4" by code_simp
  show ?thesis
    using cleaning_preserves_shape [OF ok] ok by (simp add: c n)
qed

section \<open>Properties of a run\<close>

subsection \<open>Files of an unsupported type\<close>

lemma and_then_Inl [simp]: "and_then (Inl e) f = Inl e"
  by (simp add: and_then_def)

lemma and_then_Inr [simp]: "and_then (Inr x) f = f x"
  by (simp add: and_then_def)


lemma run_files_append:
  "run_files lib ui (xs @ ys) st =
     (case run_files lib ui xs st of Inl e \<Rightarrow> Inl e | Inr st' \<Rightarrow> run_files lib ui ys st')"
  by (induction xs arbitrary: st) (auto split: sum.splits)

lemma file_step_unsupported:
  assumes "lower (snd (splitext (name f))) \<noteq> ''.csv''"
    and "lower (snd (splitext (name f))) \<noteq> ''.xlsx''"
  shows "file_step lib ui f st =
         Inr (st\<lparr>elements := elements st
                  @ [Error (''Unsupported file type: '' @ lower (snd (splitext (name f))))]\<rparr>)"
  using assms by (simp add: file_step_def Let_def render_def)

text \<open>
  No step of the loop reads the elements rendered so far: from two sessions that differ
  only there, it raises the same exception or ends in two sessions that differ only there.
\<close>

lemma and_then_same:
  assumes "rel_sum (=) R m m'" and "\<And>x y. R x y \<Longrightarrow> rel_sum (=) S (f x) (g y)"
  shows "rel_sum (=) S (and_then m f) (and_then m' g)"
  using assms by (cases rule: rel_sum.cases) simp_all

lemma register_id_same:
  "same_widgets a b \<Longrightarrow> rel_sum (=) same_widgets (register_id i a) (register_id i b)"
  by (simp add: register_id_def same_widgets_def)

lemma register_key_same:
  "same_widgets a b \<Longrightarrow> rel_sum (=) same_widgets (register_key k a) (register_key k b)"
  by (simp add: register_key_def same_widgets_def)

lemma render_same: "same_widgets a b \<Longrightarrow> same_widgets (render e a) (render e' b)"
  by (simp add: render_def same_widgets_def)

lemma cleaning_same:
  assumes "same_widgets a b"
  shows "rel_sum (=) (rel_prod (=) same_widgets) (cleaning w n df a) (cleaning w n df b)"
  unfolding cleaning_def Let_def
  by (intro and_then_same [where R = same_widgets] register_id_same assms)
     (auto intro!: and_then_same [where R = same_widgets] register_id_same render_same)

lemma visualization_same:
  assumes "same_widgets a b"
  shows "rel_sum (=) same_widgets (visualization lib w n df a) (visualization lib w n df b)"
  unfolding visualization_def Let_def
  using assms
  by (auto intro!: and_then_same [where R = same_widgets] register_id_same register_key_same
        render_same split: option.splits)

lemma conversion_same:
  assumes "same_widgets a b"
  shows "rel_sum (=) same_widgets (conversion lib w n ext df a) (conversion lib w n ext df b)"
  unfolding conversion_def Let_def
  using assms
  by (auto intro!: and_then_same [where R = same_widgets] register_id_same register_key_same
        render_same split: option.splits simp: same_widgets_def render_def)

lemma process_same:
  assumes "same_widgets a b"
  shows "rel_sum (=) same_widgets (process lib w f ext df a) (process lib w f ext df b)"
  unfolding process_def
  by (rule and_then_same [OF cleaning_same [OF assms]])
     (auto intro!: and_then_same [where R = same_widgets] register_key_same visualization_same
        conversion_same)

lemma file_step_same:
  assumes "same_widgets a b"
  shows "rel_sum (=) same_widgets (file_step lib ui f a) (file_step lib ui f b)"
  using assms
  by (auto simp: file_step_def Let_def intro!: process_same render_same split: option.splits)

lemma run_files_same:
  "same_widgets a b \<Longrightarrow>
   rel_sum (=) same_widgets (run_files lib ui files a) (run_files lib ui files b)"
proof (induction files arbitrary: a b)
  case Nil
  then show ?case by simp
next
  case (Cons f files)
  from file_step_same [OF Cons.prems, of lib ui f] show ?case
    by (cases rule: rel_sum.cases) (auto intro: Cons.IH)
qed

text \<open>
  Claim C6. A file whose extension (the lower-cased result of \<^verbatim>\<open>splitext\<close>) is neither
  \<open>.csv\<close> nor \<open>.xlsx\<close> is not read: its step of the loop only reports the error
  \<open>Unsupported file type: <extension>\<close> and leaves the converted files untouched. The loop
  goes on: after the files before it, the run continues with the files after it from the
  session that only gained the error, and the converted files of the whole run are those
  of the run without that file.
\<close>

theorem unsupported_file_is_skipped:
  assumes "ext = lower (snd (splitext (name file)))"
    and "ext \<noteq> ''.csv''" and "ext \<noteq> ''.xlsx''"
  shows "file_step lib ui file st
           = Inr (st\<lparr>elements := elements st @ [Error (''Unsupported file type: '' @ ext)]\<rparr>) \<and>
         run_files lib ui (before @ file # after) st
           = (case run_files lib ui before st of
                Inl e \<Rightarrow> Inl e
              | Inr st' \<Rightarrow>
                  run_files lib ui after
                    (st'\<lparr>elements := elements st' @ [Error (''Unsupported file type: '' @ ext)]\<rparr>)) \<and>
         map_sum id processed_files (run_files lib ui (before @ file # after) st)
           = map_sum id processed_files (run_files lib ui (before @ after) st)"
proof -
  have step: "file_step lib ui file s
           = Inr (s\<lparr>elements := elements s @ [Error (''Unsupported file type: '' @ ext)]\<rparr>)" for s
    using assms file_step_unsupported [of "file" lib ui s] by simp
  have run: "run_files lib ui (before @ file # after) st
           = (case run_files lib ui before st of
                Inl e \<Rightarrow> Inl e
              | Inr st' \<Rightarrow>
                  run_files lib ui after
                    (st'\<lparr>elements := elements st' @ [Error (''Unsupported file type: '' @ ext)]\<rparr>))"
    by (simp add: run_files_append step split: sum.splits)
  have same: "map_sum id processed_files (run_files lib ui (before @ file # after) st)
           = map_sum id processed_files (run_files lib ui (before @ after) st)"
  proof (cases "run_files lib ui before st")
    case (Inl e)
    then show ?thesis by (simp add: run_files_append)
  next
    case (Inr s)
    let ?s' = "s\<lparr>elements := elements s @ [Error (''Unsupported file type: '' @ ext)]\<rparr>"
    have "same_widgets ?s' s" by (simp add: same_widgets_def)
    from run_files_same [OF this, of lib ui after]
    have "map_sum id processed_files (run_files lib ui after ?s')
          = map_sum id processed_files (run_files lib ui after s)"
      by (cases rule: rel_sum.cases) (auto simp: same_widgets_def)
    with Inr show ?thesis by (simp add: run_files_append step)
  qed
  from step run same show ?thesis by blast
qed

text \<open>
  An upload \<open>notes.txt\<close> followed by a spreadsheet: the error is reported and the
  spreadsheet is converted and bundled.
\<close>

theorem unsupported_file_is_skipped_witness:
  "lower (snd (splitext ''notes.txt'')) = ''.txt'' \<and>
   app demo_libraries demo_ui
     [\<lparr>name = ''notes.txt'', content = ''dup''\<rparr>, \<lparr>name = ''a.xlsx'', content = ''norm''\<rparr>]
   = Inr [Error ''Unsupported file type: .txt'',
          DownloadButton ''a.csv'' ''text/csv'' (Bytes ''name,v,''),
          DownloadButton ''processed_files.zip'' ''application/zip''
            (Zip [(''a.csv'', ''name,v,'')]),
          Success ''All files processed successfully!'']"
proof -
  let ?bad = "\<lparr>name = ''notes.txt'', content = ''dup''\<rparr>"
  let ?good = "\<lparr>name = ''a.xlsx'', content = ''norm''\<rparr>"
  have ext: "''.txt'' = lower (snd (splitext (name ?bad)))" by code_simp
  have rest: "case run_files demo_libraries demo_ui [?good]
                (new_session\<lparr>elements := elements new_session
                   @ [Error (''Unsupported file type: '' @ ''.txt'')]\<rparr>) of
                Inl e \<Rightarrow> False
              | Inr st \<Rightarrow>
                  elements st = [Error ''Unsupported file type: .txt'',
                                 DownloadButton ''a.csv'' ''text/csv'' (Bytes ''name,v,'')] \<and>
                  processed_files st = [(''a.csv'', ''name,v,'')]"
    by code_simp
  from rest obtain st where
    r: "run_files demo_libraries demo_ui [?good]
          (new_session\<lparr>elements := elements new_session
             @ [Error (''Unsupported file type: '' @ ''.txt'')]\<rparr>) = Inr st"
    and e: "elements st = [Error ''Unsupported file type: .txt'',
                           DownloadButton ''a.csv'' ''text/csv'' (Bytes ''name,v,'')]"
    and p: "processed_files st = [(''a.csv'', ''name,v,'')]"
    by (auto split: sum.splits)
  from unsupported_file_is_skipped
    [OF ext, where lib = demo_libraries and ui = demo_ui and before = "[]" and after = "[?good]"
       and st = new_session]
  have "run_files demo_libraries demo_ui ([] @ ?bad # [?good]) new_session
        = run_files demo_libraries demo_ui [?good]
                (new_session\<lparr>elements := elements new_session
                   @ [Error (''Unsupported file type: '' @ ''.txt'')]\<rparr>)"
    by (simp del: run_files.simps add: run_files.simps(1))
  with r have "run_files demo_libraries demo_ui [?bad, ?good] new_session = Inr st"
    by (simp del: run_files.simps)
  then have "app demo_libraries demo_ui [?bad, ?good]
             = Inr (elements st @ bulk_download st @ [Success ''All files processed successfully!''])"
    by (simp add: app_def del: run_files.simps)
  with e p ext show ?thesis by (simp add: bulk_download_def)
qed

subsection \<open>Visualization\<close>

text \<open>
  Claim C7, as amended. When the table has fewer than two numeric columns, the
  visualization block renders no chart and raises or reports no error: it is skipped and
  leaves the session as it was.
\<close>

theorem few_numeric_columns_no_chart_no_error:
  assumes "length (columns (select_dtypes_number df)) < 2"
  shows "visualization lib w file_name0 df st = Inr st"
  using assms by (simp add: visualization_def Let_def)

theorem few_numeric_columns_no_chart_no_error_witness:
  "length (columns (select_dtypes_number ex_flat)) < 2 \<and>
   visualization demo_libraries (demo_ui ''flat.csv'') ''flat.csv'' ex_flat new_session
     = Inr new_session"
proof -
  have l: "length (columns (select_dtypes_number ex_flat)) < 2" by code_simp
  from few_numeric_columns_no_chart_no_error [OF l] l show ?thesis by simp
qed

text \<open>
  The claim as stated asks for a failure. A file whose table has one numeric column runs
  through without any error: the run ends normally, with the file converted and bundled.
\<close>

theorem one_numeric_column_no_error:
  "length (columns (select_dtypes_number ex_flat)) = 1 \<and>
   app demo_libraries demo_ui [\<lparr>name = ''flat.csv'', content = ''flat''\<rparr>]
   = Inr [DownloadButton ''flat.csv'' ''text/csv'' (Bytes ''v,''),
          DownloadButton ''processed_files.zip'' ''application/zip''
            (Zip [(''flat.csv'', ''v,'')]),
          Success ''All files processed successfully!'']"
  by code_simp

subsection \<open>The bulk archive\<close>

lemma store_snoc: "store (ds @ [(n, b)]) al = AList.update n b (store ds al)"
  by (simp add: store_def)








lemma fst_update_session [simp]:
  "elements (render e st) = elements st @ [e]"
  "processed_files (render e st) = processed_files st"
  by (simp_all add: render_def)

lemma register_id_Inr:
  "register_id i st = Inr st' \<Longrightarrow>
   elements st' = elements st \<and> processed_files st' = processed_files st"
  by (auto simp: register_id_def split: if_splits)


text \<open>What the sections of the loop body add to the session when they do not raise.\<close>

lemma case_register [simp]:
  "(case (if c then Inl e else Inr x) of Inl e' \<Rightarrow> Inl e' | Inr y \<Rightarrow> f y)
   = (if c then Inl e else f x)"
  by simp











subsection \<open>Output file names\<close>

text \<open>
  Claim C9. The output name is \<^verbatim>\<open>file.name.replace(file_extension, new_extension)\<close> with
  the lower-cased extension. For \<open>DATA.CSV\<close> nothing matches \<open>.csv\<close>, so the spreadsheet is
  named \<open>DATA.CSV\<close>; for \<open>a.csv.csv\<close> both occurrences are replaced, so the spreadsheet is
  named \<open>a.xlsx.xlsx\<close> instead of \<open>a.csv.xlsx\<close>.
\<close>

theorem output_name_replaces_every_match:
  "app demo_libraries demo_ui_excel
     [\<lparr>name = ''DATA.CSV'', content = ''dup''\<rparr>, \<lparr>name = ''a.csv.csv'', content = ''flat''\<rparr>]
   = Inr [DownloadButton ''DATA.CSV''
            ''application/vnd.openxmlformats-officedocument.spreadsheetml.sheet''
            (Bytes ''xlsx:name,value,''),
          DownloadButton ''a.xlsx.xlsx''
            ''application/vnd.openxmlformats-officedocument.spreadsheetml.sheet''
            (Bytes ''xlsx:v,''),
          DownloadButton ''processed_files.zip'' ''application/zip''
            (Zip [(''DATA.CSV'', ''xlsx:name,value,''), (''a.xlsx.xlsx'', ''xlsx:v,'')]),
          Success ''All files processed successfully!'']"
  by code_simp

section \<open>Further properties of the cleaning operations\<close>

subsection \<open>Running an operation twice\<close>

lemma take_col_all: "take_col [0..<col_len c] c = c"
  by (cases c) (simp_all add: col_len_def map_nth)

lemma getitem_mask_all_true:
  assumes "list_all (\<lambda>(_, c). col_len c = m) df"
  shows "getitem_mask df (replicate m True) = df"
proof -
  have "nonzero (replicate m True) = [0..<m]"
    by (auto simp: nonzero_def intro!: filter_True)
  moreover have "\<And>n c. (n, c) \<in> set df \<Longrightarrow> take_col [0..<m] c = c"
    using assms take_col_all by (auto simp: list_all_iff)
  ultimately show ?thesis
    by (auto simp: getitem_mask_def intro!: map_idI)
qed

lemma duplicated_from_distinct:
  "distinct rs \<Longrightarrow> duplicated_from [] rs = replicate (length rs) False"
proof (rule nth_equalityI)
  show "length (duplicated_from [] rs) = length (replicate (length rs) False)"
    by (simp add: length_duplicated_from)
next
  fix i assume d: "distinct rs" and "i < length (duplicated_from [] rs)"
  then have i: "i < length rs" by (simp add: length_duplicated_from)
  have "\<not> (\<exists>j<i. rs ! j = rs ! i)"
    using d i by (auto simp: distinct_conv_nth)
  with i show "duplicated_from [] rs ! i = replicate (length rs) False ! i"
    by (simp add: duplicated_from_nth)
qed

lemma distinct_first_occurrences:
  "distinct (map (\<lambda>i. rs ! i) (filter (\<lambda>i. \<forall>j<i. rs ! j \<noteq> rs ! i) [0..<n]))"
proof -
  have "inj_on (\<lambda>i. rs ! i) (set (filter (\<lambda>i. \<forall>j<i. rs ! j \<noteq> rs ! i) [0..<n]))"
  proof (rule inj_onI)
    fix i k
    assume "i \<in> set (filter (\<lambda>i. \<forall>j<i. rs ! j \<noteq> rs ! i) [0..<n])"
      and "k \<in> set (filter (\<lambda>i. \<forall>j<i. rs ! j \<noteq> rs ! i) [0..<n])"
      and eq: "rs ! i = rs ! k"
    then have i: "\<forall>j<i. rs ! j \<noteq> rs ! i" and k: "\<forall>j<k. rs ! j \<noteq> rs ! k" by simp_all
    show "i = k"
    proof (rule ccontr)
      assume "i \<noteq> k"
      then consider "i < k" | "k < i" by linarith
      then show False
      proof cases
        case 1
        with k eq show False by auto
      next
        case 2
        with i eq show False by auto
      qed
    qed
  qed
  then show ?thesis by (simp add: distinct_map)
qed

lemma drop_duplicates_rows:
  assumes "table_ok df"
  shows "rows (drop_duplicates df) =
           map (\<lambda>i. rows df ! i)
             (filter (\<lambda>i. \<forall>j<i. rows df ! j \<noteq> rows df ! i) [0..<nrows df])"
  using assms
  by (simp add: drop_duplicates_def rows_getitem_mask length_duplicated
      nonzero_not_duplicated table_ok_def)

text \<open>
  Removing duplicates twice is the same as removing them once: after the first pass the
  rows are pairwise different, so the second pass marks none.
\<close>

theorem drop_duplicates_idempotent:
  assumes "table_ok df"
  shows "drop_duplicates (drop_duplicates df) = drop_duplicates df"
proof -
  let ?d = "drop_duplicates df"
  have ok: "table_ok ?d"
    using assms by (simp add: drop_duplicates_def table_ok_getitem_mask)
  have "distinct (rows ?d)"
    using drop_duplicates_rows [OF assms] distinct_first_occurrences [of "rows df" "nrows df"]
    by simp
  then have "duplicated ?d = replicate (nrows ?d) False"
    by (simp add: duplicated_def duplicated_from_distinct) (simp add: rows_def)
  then have "map Not (duplicated ?d) = replicate (nrows ?d) True" by simp
  moreover from ok have "list_all (\<lambda>(_, c). col_len c = nrows ?d) ?d"
    by (simp add: table_ok_def)
  ultimately show ?thesis
    using getitem_mask_all_true [of "nrows ?d" ?d] by (simp add: drop_duplicates_def [of ?d])
qed


theorem drop_duplicates_idempotent_witness:
  "table_ok ex_dup \<and> drop_duplicates (drop_duplicates ex_dup) = drop_duplicates ex_dup"
proof -
  have ok: "table_ok ex_dup" by code_simp
  from drop_duplicates_idempotent [OF ok] ok show ?thesis by simp
qed

lemma fill_col_idem: "fill_col (fill_col xs) = fill_col xs"
proof (cases "present xs = []")
  case True
  then have "fill_col xs = xs"
    by (auto simp: fill_col_def nanmean_none intro!: map_idI split: option.splits)
  then show ?thesis by simp
next
  case False
  then have "\<forall>y\<in>set (fill_col xs). y \<noteq> None"
    by (auto simp: fill_col_def nanmean_mean split: option.splits)
  then have "map (\<lambda>x. case x of None \<Rightarrow> nanmean (fill_col xs) | Some v \<Rightarrow> Some v) (fill_col xs)
             = fill_col xs"
    by (auto intro!: map_idI split: option.splits)
  then show ?thesis by (simp add: fill_col_def [of "fill_col xs"])
qed

lemma map_numeric_twice: "map_numeric f (map_numeric g df) = map_numeric (\<lambda>xs. f (g xs)) df"
  by (auto simp: map_numeric_def split: column.splits)

text \<open>
  Filling twice is the same as filling once: after the first pass a numeric column has no
  missing cell left, unless it had no present value and stays as it was.
\<close>

theorem fill_missing_idempotent:
  assumes "table_ok df"
  shows "fill_missing (fill_missing df) = fill_missing df"
proof -
  from assms have d: "distinct (columns df)" by (simp add: table_ok_def)
  then have d': "distinct (columns (map_numeric fill_col df))" by (simp add: columns_map_numeric)
  show ?thesis
    by (simp add: fill_missing_columnwise [OF d] fill_missing_columnwise [OF d']
        map_numeric_twice fill_col_idem)
qed

theorem fill_missing_idempotent_witness:
  "table_ok ex_fill \<and> fill_missing (fill_missing ex_fill) = fill_missing ex_fill"
proof -
  have ok: "table_ok ex_fill" by code_simp
  from fill_missing_idempotent [OF ok] ok show ?thesis by simp
qed

subsection \<open>Columns of zero range\<close>

text \<open>
  In every table, a numeric column whose largest and smallest present values coincide
  (or that has no present value) is all NaN after the normalisation.
\<close>

theorem normalize_zero_range_all_nan:
  assumes "table_ok df" and "(n, Numeric xs) \<in> set df" and "nanmax xs = nanmin xs"
  shows "map_of (normalize_numeric_columns df) n = Some (Numeric (map (\<lambda>_. None) xs))"
proof -
  from assms(1) have d: "distinct (columns df)" by (simp add: table_ok_def)
  from map_of_map_numeric [OF d assms(2), of normalize_col] show ?thesis
    by (simp add: normalize_columnwise [OF d] normalize_col_zero_range [OF assms(3)])
qed

theorem normalize_zero_range_all_nan_witness:
  "table_ok ex_flat \<and> nanmax [Some 2, Some 2, Some 2] = nanmin [Some 2, Some 2, Some 2] \<and>
   map_of (normalize_numeric_columns ex_flat) ''v'' = Some (Numeric [None, None, None])"
proof -
  have ok: "table_ok ex_flat" by code_simp
  have mem: "(''v'', Numeric [Some 2, Some 2, Some 2]) \<in> set ex_flat" by (simp add: ex_flat_def)
  have eq: "nanmax [Some 2, Some 2, Some (2::rat)] = nanmin [Some 2, Some 2, Some 2]" by code_simp
  from normalize_zero_range_all_nan [OF ok mem eq] ok eq show ?thesis by simp
qed

end
